theory Spec2Isabelle
  imports Main "HOL-Library.AList"
begin

section \<open>JavaScript values\<close>

text \<open>
  The logger passes dynamically typed values around: payloads, errors, results.
  A value is one of the JSON-like shapes below. A number is an integer here (no
  fraction, no NaN), \<open>JBigInt\<close> is a BigInt such as \<open>10n\<close>; an object is its list of
  own enumerable properties in insertion order; \<open>JHost\<close> is an opaque host object (a
  logger, a socket) that has no own property the logger reads.
\<close>

datatype jsval =
    JUndefined
  | JNull
  | JBool bool
  | JNum int
  | JBigInt int
  | JStr string
  | JArr "jsval list"
  | JObj "(string \<times> jsval) list"
  | JHost string

datatype exn = TypeError | Exception string

datatype completion = Returned | Thrown exn

text \<open>\<open>!v\<close> is \<open>\<not> truthy v\<close>.\<close>

fun truthy :: "jsval \<Rightarrow> bool" where
  "truthy JUndefined = False"
| "truthy JNull = False"
| "truthy (JBool b) = b"
| "truthy (JNum n) = (n \<noteq> 0)"
| "truthy (JBigInt n) = (n \<noteq> 0)"
| "truthy (JStr s) = (s \<noteq> [])"
| "truthy (JArr xs) = True"
| "truthy (JObj kvs) = True"
| "truthy (JHost h) = True"

text \<open>\<open>typeof v === 'string'\<close>.\<close>

fun is_string :: "jsval \<Rightarrow> bool" where
  "is_string (JStr s) = True"
| "is_string v = False"

text \<open>\<open>Array.isArray(v)\<close>.\<close>

fun isArray :: "jsval \<Rightarrow> bool" where
  "isArray (JArr xs) = True"
| "isArray v = False"

text \<open>
  \<open>v.k\<close> for a property name \<open>k\<close> that no prototype defines (\<open>stream\<close>, \<open>msg\<close>,
  \<open>message\<close>, \<open>statusCode\<close>, \<open>name\<close>): reading a property of \<open>undefined\<close> or \<open>null\<close>
  throws a TypeError, a primitive or an array has no such property.
\<close>

fun get_prop :: "jsval \<Rightarrow> string \<Rightarrow> exn + jsval" where
  "get_prop JUndefined k = Inl TypeError"
| "get_prop JNull k = Inl TypeError"
| "get_prop (JObj kvs) k = Inr (case map_of kvs k of Some v \<Rightarrow> v | None \<Rightarrow> JUndefined)"
| "get_prop v k = Inr JUndefined"

text \<open>\<open>xs[i]\<close> on an array: \<open>undefined\<close> out of range.\<close>

definition at_index :: "jsval list \<Rightarrow> nat \<Rightarrow> jsval" where
  "at_index xs i = (if i < length xs then xs ! i else JUndefined)"

subsection \<open>Decimal strings and property keys\<close>

definition digit_char :: "nat \<Rightarrow> char" where
  "digit_char d = char_of (48 + d)"

fun string_of_nat :: "nat \<Rightarrow> string" where
  "string_of_nat n =
     (if n < 10 then [digit_char n] else string_of_nat (n div 10) @ [digit_char (n mod 10)])"

definition string_of_int :: "int \<Rightarrow> string" where
  "string_of_int i = (if i < 0 then CHR ''-'' # string_of_nat (nat (- i)) else string_of_nat (nat i))"

fun join :: "string \<Rightarrow> string list \<Rightarrow> string" where
  "join sep [] = []"
| "join sep [x] = x"
| "join sep (x # y # ys) = x @ sep @ join sep (y # ys)"

text \<open>
  \<open>String(v)\<close>, which a computed property key \<open>{ [v]: ... }\<close> applies to \<open>v\<close>. An
  array joins its elements with a comma, \<open>undefined\<close> and \<open>null\<close> elements as the
  empty string.
\<close>

fun toString :: "jsval \<Rightarrow> string" where
  "toString JUndefined = ''undefined''"
| "toString JNull = ''null''"
| "toString (JBool b) = (if b then ''true'' else ''false'')"
| "toString (JNum n) = string_of_int n"
| "toString (JBigInt n) = string_of_int n"
| "toString (JStr s) = s"
| "toString (JArr xs) =
     join '','' (map (\<lambda>x. if x = JUndefined \<or> x = JNull then [] else toString x) xs)"
| "toString (JObj kvs) = ''[object Object]''"
| "toString (JHost h) = ''[object Object]''"

text \<open>
  \<open>{ ...v }\<close>: the own enumerable properties of \<open>v\<close>. An array spreads into its
  indices, a string into its characters, every other primitive into nothing.
\<close>

definition indexed :: "jsval list \<Rightarrow> (string \<times> jsval) list" where
  "indexed xs = zip (map string_of_nat [0..<length xs]) xs"

fun spread :: "jsval \<Rightarrow> (string \<times> jsval) list" where
  "spread (JObj kvs) = kvs"
| "spread (JArr xs) = indexed xs"
| "spread (JStr s) = indexed (map (\<lambda>c. JStr [c]) s)"
| "spread v = []"

section \<open>Settings and sinks\<close>

text \<open>
  The stream classes are constructed with the meta store and the settings; only the
  class matters to the sink selection. \<open>UserStream\<close> is a stream object the caller
  supplies in \<open>settings.streams\<close>. The source's \<open>_init\<close>, \<open>_createStream\<close> and
  \<open>_setLogMeta\<close> are \<open>init\<close>, \<open>createStream\<close> and \<open>setLogMeta\<close> here.
\<close>

datatype stream = TrimStream | MapperStream | BaseStream | UserStream string

record stream_binding =
  b_type :: string
  b_level :: string
  b_stream :: stream

datatype serializer = HeaderSerializer | ReqSerializer | ErrSerializer | UserSerializer string

record settings =
  s_name :: "string option"
  s_type :: "string option"
  s_level :: "string option"
  isJSON :: bool
  isMapper :: bool
  isTrim :: bool
  s_streams :: "stream_binding list option"
  s_serializers :: "(string \<times> serializer) list option"

record logger_options =
  o_name :: string
  o_type :: string
  o_streams :: "stream_binding list"
  o_serializers :: "(string \<times> serializer) list"


definition SUCCESSFUL_RESPONSE_POSTFIX :: string where
  "SUCCESSFUL_RESPONSE_POSTFIX = ''SUCCESSFUL_RESPONSE''"

definition EXCEPTION_RESPONSE_POSTFIX :: string where
  "EXCEPTION_RESPONSE_POSTFIX = ''EXCEPTION_RESPONSE''"

definition DEFAULT_NAME_AND_TYPE :: string where
  "DEFAULT_NAME_AND_TYPE = ''example''"

definition DEFAULT_STREAM_TYPE :: string where
  "DEFAULT_STREAM_TYPE = ''raw''"

definition DEFAULT_LEVEL :: string where
  "DEFAULT_LEVEL = ''INFO''"

text \<open>\<open>x || d\<close> on an optional string: the default when \<open>x\<close> is missing or empty.\<close>

definition or_default :: "string option \<Rightarrow> string \<Rightarrow> string" where
  "or_default x d = (case x of None \<Rightarrow> d | Some s \<Rightarrow> if s = [] then d else s)"

definition Serializers :: "(string \<times> serializer) list" where
  "Serializers =
     [(''header'', HeaderSerializer), (''req'', ReqSerializer), (''err'', ErrSerializer)]"

text \<open>\<open>Object.assign(target, source)\<close>: every property of the source is written to the target.\<close>

definition assign :: "('k \<times> 'v) list \<Rightarrow> ('k \<times> 'v) list \<Rightarrow> ('k \<times> 'v) list" where
  "assign target source = foldl (\<lambda>acc (k, v). AList.update k v acc) target source"

definition createStream :: "settings \<Rightarrow> stream" where
  "createStream st = (if isTrim st then TrimStream else MapperStream)"

definition init :: "settings \<Rightarrow> logger_options" where
  "init st =
     (let level = or_default (s_level st) DEFAULT_LEVEL;
          serializerList =
            (case s_serializers st of
               None \<Rightarrow> Serializers
             | Some sl \<Rightarrow> assign Serializers sl);
          streamList =
            (if isMapper st then
               [\<lparr>b_type = DEFAULT_STREAM_TYPE, b_level = level, b_stream = createStream st\<rparr>]
             else if (case s_streams st of None \<Rightarrow> False | Some ss \<Rightarrow> length ss > 0) then
               (case s_streams st of None \<Rightarrow> [] | Some ss \<Rightarrow> ss)
             else
               [\<lparr>b_type = DEFAULT_STREAM_TYPE, b_level = level, b_stream = BaseStream\<rparr>])
      in \<lparr>o_name = or_default (s_name st) DEFAULT_NAME_AND_TYPE,
          o_type = or_default (s_type st) DEFAULT_NAME_AND_TYPE,
          o_streams = streamList,
          o_serializers = serializerList\<rparr>)"

section \<open>The logger and its \<open>json\<close> and \<open>log\<close> calls\<close>

text \<open>
  A logger holds its settings, the options \<open>_init\<close> built for the logging engine, and
  the fields the engine was given to bind to every record of the logger. The engine
  is outside the repository: what reaches it is the list of \<open>info\<close> calls, each
  with the logger it was made on, the fields object and the message argument. Whether
  and where the engine writes a record for a call is the engine's.
\<close>

record logger =
  lg_settings :: settings
  lg_options :: logger_options
  lg_fields :: "(string \<times> jsval) list"

record log_call =
  c_logger :: logger
  c_fields :: jsval
  c_msg :: jsval

definition info :: "logger \<Rightarrow> jsval \<Rightarrow> jsval \<Rightarrow> log_call list \<Rightarrow> log_call list" where
  "info lg flds msg tr = tr @ [\<lparr>c_logger = lg, c_fields = flds, c_msg = msg\<rparr>]"

text \<open>
  \<open>json(args, ...rest)\<close>. \<open>newArgs\<close> starts unassigned and each of the two \<open>typeof\<close>
  tests may assign it; \<open>concat\<close> on an unassigned \<open>newArgs\<close> would throw.
\<close>

definition json :: "logger \<Rightarrow> jsval \<Rightarrow> jsval list \<Rightarrow> log_call list \<Rightarrow> completion \<times> log_call list" where
  "json lg args rest tr =
     (if \<not> isJSON (lg_settings lg) then (Returned, tr)
      else
        let newArgs0 = None;
            newArgs1 = (if is_string args then Some [JObj [(''level'', JNum 70)], args] else newArgs0);
            newArgs2 = (if \<not> is_string args
                        then Some [JObj (AList.update ''level'' (JNum 70) (spread args))]
                        else newArgs1)
        in case newArgs2 of
             None \<Rightarrow> (Thrown TypeError, tr)
           | Some newArgs \<Rightarrow>
               let concatArgs = newArgs @ rest
               in (Returned, info lg (at_index concatArgs 0) (at_index concatArgs 1) tr))"

text \<open>
  \<open>log(arg, ...rest)\<close>. The rest parameter is the array of the remaining arguments;
  \<open>args\<close> is first its spread, then, under \<open>Array.isArray(rest)\<close>, the one-property
  object keyed by \<open>rest[0]\<close>.
\<close>

definition log :: "logger \<Rightarrow> jsval \<Rightarrow> jsval list \<Rightarrow> log_call list \<Rightarrow> completion \<times> log_call list" where
  "log lg arg rest tr =
     (let args0 = JObj (spread (JArr rest));
          args1 = (if isArray (JArr rest)
                   then (let key = at_index rest 0; val = at_index rest 1
                         in JObj [(toString key, val)])
                   else args0)
      in json lg (JObj [(''stringData'', args1)]) [arg] tr)"

text \<open>The claim's reading of \<open>log\<close>: a \<open>json\<close> call with the pair \<open>rest[0]\<close>, \<open>rest[1]\<close>.\<close>

definition log_as_json :: "logger \<Rightarrow> jsval \<Rightarrow> jsval list \<Rightarrow> log_call list \<Rightarrow> completion \<times> log_call list" where
  "log_as_json lg arg rest tr =
     json lg (JObj [(''stringData'', JObj [(toString (at_index rest 0), at_index rest 1)])]) [arg] tr"

section \<open>Construction\<close>

text \<open>
  The constructor has one parameter, \<open>settings\<close>, which is a settings object or, as
  its \<open>instanceof NodeLogger\<close> test shows, a logger. It hands \<open>_init(settings)\<close>, and
  nothing else, to the engine, and keeps the settings: its argument, or the settings
  of the logger it was given (\<open>_extractSettings\<close>).

  \<open>_init\<close> on a logger reads the logger's properties. \<open>as_settings\<close> is a logger read
  that way: the engine keeps the streams and the serializers it was constructed with
  under \<open>streams\<close> and \<open>serializers\<close>; a logger has no \<open>name\<close>, \<open>type\<close>, \<open>isJSON\<close>,
  \<open>isMapper\<close> or \<open>isTrim\<close> property; its \<open>level\<close> is the engine's method and no level
  name, and \<open>_init\<close> uses the level only in the two branches that a non-empty stream
  list rules out.
\<close>

definition as_settings :: "logger \<Rightarrow> settings" where
  "as_settings lg =
     \<lparr>s_name = None, s_type = None, s_level = None, isJSON = False, isMapper = False,
      isTrim = False, s_streams = Some (o_streams (lg_options lg)),
      s_serializers = Some (o_serializers (lg_options lg))\<rparr>"

definition NodeLogger :: "settings + logger \<Rightarrow> logger" where
  "NodeLogger arg =
     (case arg of
        Inl st \<Rightarrow> \<lparr>lg_settings = st, lg_options = init st, lg_fields = []\<rparr>
      | Inr parent \<Rightarrow>
          \<lparr>lg_settings = lg_settings parent, lg_options = init (as_settings parent),
           lg_fields = []\<rparr>)"

text \<open>\<open>NodeLogger.create(settings)\<close>: a new logger (its level is set in the engine).\<close>

definition create :: "settings \<Rightarrow> logger" where
  "create st = NodeLogger (Inl st)"


section \<open>The request hooks\<close>

text \<open>
  A request has the fields the hooks read or write; header values are strings, as the
  HTTP server delivers them. \<open>timeStart\<close> is a \<open>process.hrtime()\<close> pair that the
  application sets, \<open>requestId\<close> and \<open>log\<close> are set by \<open>middleware\<close>.
\<close>

type_synonym hrtime = "nat \<times> nat"

record request =
  rq_url :: string
  rq_method :: string
  rq_headers :: "(string \<times> string) list"
  requestId :: "string option"
  timeStart :: "hrtime option"
  rq_log :: "logger option"

record response =
  rs_headers :: "(string \<times> string) list"
  rs_result :: jsval

text \<open>
  The state a hook works on: the request, the response, and in \<open>hs_emitted\<close> the
  \<open>info\<close> calls handed to the engine so far.
\<close>

record hook_state =
  hs_req :: request
  hs_res :: response
  hs_emitted :: "log_call list"

text \<open>
  How a hook ends: it calls \<open>next()\<close> or \<open>next(err)\<close> as its last action, or it throws
  before it gets there.
\<close>

datatype outcome = Next "jsval option" | Threw exn

text \<open>Truthiness of an optional string: \<open>undefined\<close> and \<open>''\<close> are falsy.\<close>

definition present :: "string option \<Rightarrow> bool" where
  "present x = (case x of None \<Rightarrow> False | Some s \<Rightarrow> s \<noteq> [])"




text \<open>\<open>req.log.json(args, ...rest)\<close>: a TypeError when \<open>req.log\<close> is not set.\<close>

definition req_log_json :: "request \<Rightarrow> jsval \<Rightarrow> jsval list \<Rightarrow> log_call list \<Rightarrow> completion \<times> log_call list" where
  "req_log_json rq args rest tr =
     (case rq_log rq of
        None \<Rightarrow> (Thrown TypeError, tr)
      | Some lg \<Rightarrow> json lg args rest tr)"


text \<open>
  In the three response hooks \<open>clock\<close> stands for
  \<open>Timer.hrtimeToMs(process.hrtime(req.timeStart))\<close>: the milliseconds elapsed since
  the start time (the timer module is not part of the sources). The guard
  \<open>!req.requestId || !req.timeStart\<close> tests the request id first.
\<close>

definition middlewareSuccessfulShortResponse :: "(hrtime \<Rightarrow> int) \<Rightarrow> hook_state \<Rightarrow> outcome \<times> hook_state" where
  "middlewareSuccessfulShortResponse clock s =
     (let rq = hs_req s in
      if \<not> present (requestId rq) then (Next None, s)
      else
        case timeStart rq of
          None \<Rightarrow> (Next None, s)
        | Some ts \<Rightarrow>
            let time = JNum (clock ts);
                (c, tr) = req_log_json rq
                  (JObj [(''secureJsonData'',
                     JObj [(''code'', JNum 200), (''meta'', JObj [(''time'', time)])])])
                  [JStr SUCCESSFUL_RESPONSE_POSTFIX] (hs_emitted s);
                s1 = s\<lparr>hs_emitted := tr\<rparr>
            in case c of
                 Thrown e \<Rightarrow> (Threw e, s1)
               | Returned \<Rightarrow> (Next None, s1))"

definition middlewareSuccessfulResponse :: "(hrtime \<Rightarrow> int) \<Rightarrow> hook_state \<Rightarrow> outcome \<times> hook_state" where
  "middlewareSuccessfulResponse clock s =
     (let rq = hs_req s; rs = hs_res s in
      if \<not> present (requestId rq) then (Next None, s)
      else
        case timeStart rq of
          None \<Rightarrow> (Next None, s)
        | Some ts \<Rightarrow>
            let time = JNum (clock ts) in
            if \<not> truthy (rs_result rs) \<and> rs_result rs \<noteq> JNull then (Next None, s)
            else
              case get_prop (rs_result rs) ''stream'' of
                Inl e \<Rightarrow> (Threw e, s)
              | Inr stream \<Rightarrow>
                  if truthy stream then (Next None, s)
                  else
                    let (c, tr) = req_log_json rq
                          (JObj [(''secureJsonData'',
                             JObj [(''code'', JNum 200),
                                   (''result'', rs_result rs),
                                   (''meta'',
                                      JObj [(''requestId'',
                                               (case requestId rq of None \<Rightarrow> JUndefined | Some i \<Rightarrow> JStr i)),
                                            (''time'', time)])])])
                          [JStr SUCCESSFUL_RESPONSE_POSTFIX] (hs_emitted s);
                        s1 = s\<lparr>hs_emitted := tr\<rparr>
                    in case c of
                         Thrown e \<Rightarrow> (Threw e, s1)
                       | Returned \<Rightarrow> (Next None, s1))"

definition middlewareExceptionResponse :: "(hrtime \<Rightarrow> int) \<Rightarrow> jsval \<Rightarrow> hook_state \<Rightarrow> outcome \<times> hook_state" where
  "middlewareExceptionResponse clock err s =
     (let rq = hs_req s in
      if \<not> present (requestId rq) then (Next None, s)
      else
        case timeStart rq of
          None \<Rightarrow> (Next None, s)
        | Some ts \<Rightarrow>
            let time = JNum (clock ts) in
            case get_prop err ''message'' of
              Inl e \<Rightarrow> (Threw e, s)
            | Inr message \<Rightarrow>
                (case get_prop message ''msg'' of
                   Inl e \<Rightarrow> (Threw e, s)
                 | Inr msg \<Rightarrow>
                     (case get_prop err ''statusCode'' of
                        Inl e \<Rightarrow> (Threw e, s)
                      | Inr statusCode \<Rightarrow>
                          (case get_prop err ''name'' of
                             Inl e \<Rightarrow> (Threw e, s)
                           | Inr name \<Rightarrow>
                               let errorMessage = (if truthy msg then msg else message);
                                   errorCode = (if \<not> truthy statusCode then JNum 400 else statusCode);
                                   (c, tr) = req_log_json rq
                                     (JObj [(''secureJsonData'',
                                        JObj [(''error'',
                                                 JObj [(''code'', errorCode),
                                                       (''name'', name),
                                                       (''message'', errorMessage)]),
                                              (''meta'',
                                                 JObj [(''requestId'',
                                                          (case requestId rq of None \<Rightarrow> JUndefined | Some i \<Rightarrow> JStr i)),
                                                       (''time'', time)])])])
                                     [JStr EXCEPTION_RESPONSE_POSTFIX] (hs_emitted s);
                                   s1 = s\<lparr>hs_emitted := tr\<rparr>
                               in case c of
                                    Thrown e \<Rightarrow> (Threw e, s1)
                                  | Returned \<Rightarrow> (Next (Some err), s1)))))"

section \<open>The serializers\<close>

text \<open>
  Strings are lists of 8-bit characters, as the header values of an HTTP request are
  (the server decodes them as Latin-1). The line terminators, which \<open>.\<close> in a regular
  expression does not match, are then line feed and carriage return.
\<close>

definition line_terminator :: "char \<Rightarrow> bool" where
  "line_terminator c = (c = CHR 0x0A \<or> c = CHR 0x0D)"

text \<open>\<open>strip_prefix key s\<close>: the text behind the literal \<open>key\<close> when \<open>s\<close> starts with it.\<close>

fun strip_prefix :: "string \<Rightarrow> string \<Rightarrow> string option" where
  "strip_prefix [] s = Some s"
| "strip_prefix (k # ks) [] = None"
| "strip_prefix (k # ks) (c # cs) = (if k = c then strip_prefix ks cs else None)"

text \<open>
  The two header patterns are \<open>/(sid=).+?(;|$)/g\<close> and \<open>/(rm=).+?(;|$)/g\<close>: a literal
  first group, then \<open>.+?(;|$)\<close>. \<open>match_value\<close> matches \<open>.+?(;|$)\<close> at the start of
  its argument and returns the second group and the text behind the match. The lazy
  \<open>.+?\<close> takes one character that is no line terminator; \<open>value_end\<close> then stops at
  the first position where \<open>;\<close> or the end of the string follows, and fails when a line
  terminator comes first.
\<close>

fun value_end :: "string \<Rightarrow> (string \<times> string) option" where
  "value_end [] = Some ([], [])"
| "value_end (c # cs) =
     (if c = CHR '';'' then Some ([c], cs)
      else if line_terminator c then None
      else value_end cs)"

fun match_value :: "string \<Rightarrow> (string \<times> string) option" where
  "match_value [] = None"
| "match_value (c # cs) = (if line_terminator c then None else value_end cs)"

definition match_at :: "string \<Rightarrow> string \<Rightarrow> (string \<times> string) option" where
  "match_at key s = (case strip_prefix key s of None \<Rightarrow> None | Some r \<Rightarrow> match_value r)"

text \<open>The patterns by their first group, and the replacement \<open>'$1***$2'\<close> by its groups.\<close>

definition HEADER_RM_REGEX :: string where
  "HEADER_RM_REGEX = ''rm=''"

definition HEADER_SID_REGEX :: string where
  "HEADER_SID_REGEX = ''sid=''"

definition HEADER_REPLACE_PATTERN :: "string \<Rightarrow> string \<Rightarrow> string" where
  "HEADER_REPLACE_PATTERN g1 g2 = g1 @ ''***'' @ g2"

definition HEADER_AUTHORIZATION_PATTERN :: string where
  "HEADER_AUTHORIZATION_PATTERN = ''***''"

text \<open>
  \<open>s.replace(regex, HEADER_REPLACE_PATTERN)\<close> with the flag \<open>g\<close>: the string is scanned
  from the left; where the pattern matches, the replacement is written and the scan
  goes on behind the match, elsewhere one character is copied.
\<close>

function replace :: "string \<Rightarrow> string \<Rightarrow> string" where
  "replace key [] = []"
| "replace key (c # cs) =
     (case match_at key (c # cs) of
        None \<Rightarrow> c # replace key cs
      | Some (t, rest) \<Rightarrow> HEADER_REPLACE_PATTERN key t @ replace key rest)"
  by pat_completeness auto
termination
proof (relation "measure (\<lambda>(key, s). length s)")
  show "wf (measure (\<lambda>(key, s). length s))" by simp
next
  fix key :: string and c cs
  show "((key, cs), key, c # cs) \<in> measure (\<lambda>(key, s). length s)" by simp
next
  fix key :: string and c cs x2 t rest
  assume m: "match_at key (c # cs) = Some x2" and x2: "(t, rest) = x2"
  have strip: "length r \<le> length s" if "strip_prefix k s = Some r" for k s r
    using that by (induction k s rule: strip_prefix.induct) (auto split: if_splits)
  have vend: "length r \<le> length s" if "value_end s = Some (u, r)" for s u r
    using that by (induction s) (auto split: if_splits)
  from m x2 obtain r where r: "strip_prefix key (c # cs) = Some r" "match_value r = Some (t, rest)"
    by (auto simp: match_at_def split: option.splits)
  from r(2) have "length rest < length r"
    by (cases r) (auto split: if_splits dest: vend)
  with strip[OF r(1)] show "((key, rest), key, c # cs) \<in> measure (\<lambda>(key, s). length s)"
    by simp
qed

text \<open>
  \<open>Serializers.header(headers)\<close>: a copy of the headers in which a non-empty \<open>cookie\<close>
  has gone through the two replacements, \<open>sid\<close> first, and a non-empty
  \<open>authorization\<close> is the fixed mask.
\<close>

definition header :: "(string \<times> string) list \<Rightarrow> (string \<times> string) list" where
  "header headers =
     (let headerList = headers;
          headerList1 =
            (case map_of headerList ''cookie'' of
               None \<Rightarrow> headerList
             | Some cookie \<Rightarrow>
                 if cookie = [] then headerList
                 else AList.update ''cookie''
                        (replace HEADER_RM_REGEX (replace HEADER_SID_REGEX cookie)) headerList);
          headerList2 =
            (case map_of headerList1 ''authorization'' of
               None \<Rightarrow> headerList1
             | Some authorization \<Rightarrow>
                 if authorization = [] then headerList1
                 else AList.update ''authorization'' HEADER_AUTHORIZATION_PATTERN headerList1)
      in headerList2)"

text \<open>\<open>Serializers.req(request)\<close>: the url, the method and the serialized headers.\<close>

definition req :: "request \<Rightarrow> jsval" where
  "req request =
     JObj [(''url'', JStr (rq_url request)),
           (''method'', JStr (rq_method request)),
           (''headers'', JObj (map (\<lambda>(k, v). (k, JStr v)) (header (rq_headers request))))]"

subsection \<open>Cookie strings as lists of pairs\<close>

text \<open>
  The claim about the redactor speaks of cookie pairs. A cookie string is the pairs
  \<open>name=value\<close> joined by \<open>; \<close>, and masking a list of pairs replaces the values of
  the pairs named \<open>sid\<close> and \<open>rm\<close> by the mask.
\<close>

definition pair_text :: "string \<times> string \<Rightarrow> string" where
  "pair_text p = fst p @ ''='' @ snd p"

definition cookie_string :: "(string \<times> string) list \<Rightarrow> string" where
  "cookie_string ps = join ''; '' (map pair_text ps)"

definition mask_pair :: "string \<times> string \<Rightarrow> string \<times> string" where
  "mask_pair p = (if fst p = ''sid'' \<or> fst p = ''rm'' then (fst p, ''***'') else p)"

text \<open>
  \<open>plain v\<close>: no \<open>;\<close> and no line terminator in \<open>v\<close>. \<open>occurs K x\<close>: the text \<open>K\<close> stands
  somewhere in \<open>x\<close>; \<open>ends_with K x\<close>: it stands at the end of \<open>x\<close>. A pair is
  well-formed for the redactor when the value of a \<open>sid\<close> or \<open>rm\<close> pair is non-empty
  and plain (and an \<open>rm\<close> value does not end with \<open>sid=\<close>), and any other pair contains
  neither \<open>sid=\<close> nor \<open>rm=\<close>.
\<close>

definition plain :: "string \<Rightarrow> bool" where
  "plain v = (\<forall>c \<in> set v. c \<noteq> CHR '';'' \<and> \<not> line_terminator c)"

fun occurs :: "string \<Rightarrow> string \<Rightarrow> bool" where
  "occurs K [] = (K = [])"
| "occurs K (c # cs) = (strip_prefix K (c # cs) \<noteq> None \<or> occurs K cs)"

fun ends_with :: "string \<Rightarrow> string \<Rightarrow> bool" where
  "ends_with K [] = (K = [])"
| "ends_with K (c # cs) = (K = c # cs \<or> ends_with K cs)"

definition wf_pair :: "string \<times> string \<Rightarrow> bool" where
  "wf_pair p =
     (if fst p = ''sid'' then snd p \<noteq> [] \<and> plain (snd p)
      else if fst p = ''rm'' then snd p \<noteq> [] \<and> plain (snd p) \<and> \<not> ends_with ''sid='' (snd p)
      else \<not> occurs ''sid='' (pair_text p) \<and> \<not> occurs ''rm='' (pair_text p))"

text \<open>
  For the proofs: the pairs as they stand between the two replacements, when only
  \<open>sid=\<close> has been rewritten (also inside the value of an \<open>rm\<close> pair); and the keys
  the proofs are about, whose first character stands nowhere else in the key and
  which are plain.
\<close>

definition mask_sid :: "string \<times> string \<Rightarrow> string \<times> string" where
  "mask_sid p =
     (if fst p = ''sid'' then (''sid'', ''***'')
      else if fst p = ''rm'' then (''rm'', replace ''sid='' (snd p))
      else p)"

definition good_key :: "string \<Rightarrow> bool" where
  "good_key K = (case K of [] \<Rightarrow> False | k # K' \<Rightarrow> k \<notin> set K' \<and> plain K)"

section \<open>The network sink\<close>

text \<open>
  \<open>GelfStream\<close> holds a client of the log collector; what the model keeps of it is the
  list of events emitted on the client, each with its name and its payload.
  \<open>write(record)\<close> emits \<open>gelf.log\<close> with the template string
  \<open>`${JSON.stringify(this._map(record))}\n`\<close>. \<open>_map\<close> is the base stream's (not part
  of the sources) and \<open>JSON.stringify\<close> the platform's: both are parameters, and
  either may throw, which ends \<open>write\<close> before anything is emitted (\<open>write\<close> is
  \<open>gelf_write\<close> here). \<open>stringify\<close>
  gives the text the template interpolates.
\<close>

record gelf_stream =
  gelf_emitted :: "(string \<times> string) list"

definition emit :: "string \<Rightarrow> string \<Rightarrow> gelf_stream \<Rightarrow> gelf_stream" where
  "emit event payload g = g\<lparr>gelf_emitted := gelf_emitted g @ [(event, payload)]\<rparr>"

definition gelf_write :: "('r \<Rightarrow> exn + 'm) \<Rightarrow> ('m \<Rightarrow> exn + string) \<Rightarrow> 'r \<Rightarrow> gelf_stream \<Rightarrow> completion \<times> gelf_stream" where
  "gelf_write map_record stringify record g =
     (case map_record record of
        Inl e \<Rightarrow> (Thrown e, g)
      | Inr mapped \<Rightarrow>
          (case stringify mapped of
             Inl e \<Rightarrow> (Thrown e, g)
           | Inr text \<Rightarrow> (Returned, emit ''gelf.log'' (text @ [CHR 0x0A]) g)))"

subsection \<open>\<open>JSON.stringify\<close> and the base stream's \<open>_map\<close>\<close>

text \<open>
  \<open>JSON.stringify\<close> on the values of this model. A string is quoted with the escapes
  of JSON; an array element that is \<open>undefined\<close> is written \<open>null\<close>, an object property
  that is \<open>undefined\<close> is left out; a BigInt throws a TypeError; \<open>undefined\<close> itself
  gives \<open>undefined\<close> (\<open>None\<close>). What a host object serializes to is the parameter
  \<open>host\<close>. The properties of an object are taken to have distinct names, none of them
  an array index (those JavaScript enumerates first), and no value has a \<open>toJSON\<close>
  method.
\<close>

definition hex_char :: "nat \<Rightarrow> char" where
  "hex_char d = (if d < 10 then char_of (48 + d) else char_of (87 + d))"

definition escape :: "char \<Rightarrow> string" where
  "escape c =
     (if c = CHR 0x22 then [CHR 0x5C, CHR 0x22]
      else if c = CHR 0x5C then [CHR 0x5C, CHR 0x5C]
      else if c = CHR 0x08 then [CHR 0x5C, CHR ''b'']
      else if c = CHR 0x0C then [CHR 0x5C, CHR ''f'']
      else if c = CHR 0x0A then [CHR 0x5C, CHR ''n'']
      else if c = CHR 0x0D then [CHR 0x5C, CHR ''r'']
      else if c = CHR 0x09 then [CHR 0x5C, CHR ''t'']
      else if of_char c < (32 :: nat)
        then [CHR 0x5C, CHR ''u'', CHR ''0'', CHR ''0'',
              hex_char (of_char c div 16), hex_char (of_char c mod 16)]
      else [c])"

definition quote :: "string \<Rightarrow> string" where
  "quote s = [CHR 0x22] @ concat (map escape s) @ [CHR 0x22]"

fun JSON_stringify :: "(string \<Rightarrow> exn + string option) \<Rightarrow> jsval \<Rightarrow> exn + string option"
  and stringify_elements :: "(string \<Rightarrow> exn + string option) \<Rightarrow> jsval list \<Rightarrow> exn + string list"
  and stringify_properties :: "(string \<Rightarrow> exn + string option) \<Rightarrow> (string \<times> jsval) list \<Rightarrow> exn + string list"
where
  "JSON_stringify host JUndefined = Inr None"
| "JSON_stringify host JNull = Inr (Some ''null'')"
| "JSON_stringify host (JBool b) = Inr (Some (if b then ''true'' else ''false''))"
| "JSON_stringify host (JNum n) = Inr (Some (string_of_int n))"
| "JSON_stringify host (JBigInt n) = Inl TypeError"
| "JSON_stringify host (JStr s) = Inr (Some (quote s))"
| "JSON_stringify host (JArr xs) =
     (case stringify_elements host xs of
        Inl e \<Rightarrow> Inl e
      | Inr parts \<Rightarrow> Inr (Some (''['' @ join '','' parts @ '']'')))"
| "JSON_stringify host (JObj kvs) =
     (case stringify_properties host kvs of
        Inl e \<Rightarrow> Inl e
      | Inr parts \<Rightarrow> Inr (Some (''{'' @ join '','' parts @ ''}'')))"
| "JSON_stringify host (JHost h) = host h"
| "stringify_elements host [] = Inr []"
| "stringify_elements host (x # xs) =
     (case JSON_stringify host x of
        Inl e \<Rightarrow> Inl e
      | Inr t \<Rightarrow>
          (case stringify_elements host xs of
             Inl e \<Rightarrow> Inl e
           | Inr ts \<Rightarrow> Inr ((case t of None \<Rightarrow> ''null'' | Some u \<Rightarrow> u) # ts)))"
| "stringify_properties host [] = Inr []"
| "stringify_properties host ((k, v) # kvs) =
     (case JSON_stringify host v of
        Inl e \<Rightarrow> Inl e
      | Inr t \<Rightarrow>
          (case stringify_properties host kvs of
             Inl e \<Rightarrow> Inl e
           | Inr ts \<Rightarrow> Inr ((case t of None \<Rightarrow> [] | Some u \<Rightarrow> [quote k @ '':'' @ u]) @ ts)))"

text \<open>The text \<open>`${JSON.stringify(v)}`\<close> interpolates: \<open>undefined\<close> is written out.\<close>

definition stringify_text :: "(string \<Rightarrow> exn + string option) \<Rightarrow> jsval \<Rightarrow> exn + string" where
  "stringify_text host v =
     (case JSON_stringify host v of
        Inl e \<Rightarrow> Inl e
      | Inr None \<Rightarrow> Inr ''undefined''
      | Inr (Some text) \<Rightarrow> Inr text)"

text \<open>
  Modelled from the spec: the base stream's \<open>_map\<close>, which is not part of the sources.
  The spec's mapper stage "merges per-request metadata (e.g., requestId) into the
  record's meta field" and is "a total function over LogRecord -> LogRecord (never
  throws; unknown/missing fields are no-ops)": the stream's metadata is assigned to
  the record's \<open>meta\<close> object, every other field stays, and a record that is no object
  is returned as it is.
\<close>

definition map_meta :: "(string \<times> jsval) list \<Rightarrow> jsval \<Rightarrow> exn + jsval" where
  "map_meta meta record =
     (case record of
        JObj kvs \<Rightarrow>
          Inr (JObj (AList.update ''meta''
                 (JObj (assign (case map_of kvs ''meta'' of Some (JObj m) \<Rightarrow> m | _ \<Rightarrow> []) meta))
                 kvs))
      | _ \<Rightarrow> Inr record)"

section \<open>Sample inputs\<close>

text \<open>Concrete settings, requests and errors at which the theorems below are instantiated.\<close>

definition sample_binding :: stream_binding where
  "sample_binding = \<lparr>b_type = ''stream'', b_level = ''WARN'', b_stream = UserStream ''file''\<rparr>"

definition sample_settings :: "bool \<Rightarrow> bool \<Rightarrow> stream_binding list option \<Rightarrow> settings" where
  "sample_settings j m ss =
     \<lparr>s_name = Some ''api'', s_type = None, s_level = Some ''DEBUG'', isJSON = j, isMapper = m,
      isTrim = False, s_streams = ss, s_serializers = None\<rparr>"

definition sample_logger :: "bool \<Rightarrow> logger" where
  "sample_logger j = create (sample_settings j False None)"

definition sample_request :: "(string \<times> string) list \<Rightarrow> string option \<Rightarrow> hrtime option \<Rightarrow> request" where
  "sample_request hs rid ts =
     \<lparr>rq_url = ''/users'', rq_method = ''GET'', rq_headers = hs, requestId = rid, timeStart = ts,
      rq_log = Some (sample_logger True)\<rparr>"

definition sample_state :: "request \<Rightarrow> jsval \<Rightarrow> hook_state" where
  "sample_state rq r = \<lparr>hs_req = rq, hs_res = \<lparr>rs_headers = [], rs_result = r\<rparr>, hs_emitted = []\<rparr>"

definition sample_error :: jsval where
  "sample_error =
     JObj [(''statusCode'', JNum 404), (''name'', JStr ''NotFound''), (''message'', JStr ''missing'')]"

definition sample_clock :: "hrtime \<Rightarrow> int" where
  "sample_clock ts = 5"

definition sample_cookie :: "(string \<times> string) list" where
  "sample_cookie = [(''theme'', ''dark''), (''sid'', ''s3cr3t''), (''rm'', ''1''), (''lang'', ''en'')]"

definition sample_map :: "jsval \<Rightarrow> exn + jsval" where
  "sample_map = map_meta [(''requestId'', JStr ''r1'')]"

definition sample_host :: "string \<Rightarrow> exn + string option" where
  "sample_host h = Inr (Some ''{}'')"

definition sample_record :: jsval where
  "sample_record = JObj [(''msg'', JStr ''up''), (''level'', JNum 30)]"

definition bigint_record :: jsval where
  "bigint_record = JObj [(''msg'', JStr ''up''), (''id'', JBigInt 10)]"

lemmas sample_defs = sample_binding_def sample_settings_def sample_logger_def sample_request_def
  sample_state_def sample_error_def sample_clock_def create_def NodeLogger_def

section \<open>Sink selection\<close>

text \<open>
  C1, as the code has it. \<open>_init\<close> tests \<open>settings.isMapper\<close> first: when it is set,
  the one binding of the mapper stream (the trim stream under \<open>isTrim\<close>) is the sink
  list, whatever \<open>settings.streams\<close> holds. The explicit \<open>streams\<close> are taken only
  when \<open>isMapper\<close> is not set and the list is non-empty, and they come before the
  default sink, which is used when neither is configured.
\<close>

theorem init_sink_selection:
  "(isMapper st \<longrightarrow>
      o_streams (init st) =
        [\<lparr>b_type = DEFAULT_STREAM_TYPE, b_level = or_default (s_level st) DEFAULT_LEVEL,
          b_stream = (if isTrim st then TrimStream else MapperStream)\<rparr>])
   \<and> (\<not> isMapper st \<and> s_streams st = Some ss \<and> ss \<noteq> [] \<longrightarrow> o_streams (init st) = ss)
   \<and> (\<not> isMapper st \<and> (s_streams st = None \<or> s_streams st = Some []) \<longrightarrow>
      o_streams (init st) =
        [\<lparr>b_type = DEFAULT_STREAM_TYPE, b_level = or_default (s_level st) DEFAULT_LEVEL,
          b_stream = BaseStream\<rparr>])"
  by (auto simp: init_def createStream_def Let_def)

theorem init_sink_selection_witness:
  "isMapper (sample_settings True True (Some [sample_binding]))
   \<and> o_streams (init (sample_settings True True (Some [sample_binding])))
       = [\<lparr>b_type = ''raw'', b_level = ''DEBUG'', b_stream = MapperStream\<rparr>]
   \<and> \<not> isMapper (sample_settings True False (Some [sample_binding]))
   \<and> s_streams (sample_settings True False (Some [sample_binding])) = Some [sample_binding]
   \<and> [sample_binding] \<noteq> []
   \<and> o_streams (init (sample_settings True False (Some [sample_binding]))) = [sample_binding]
   \<and> \<not> isMapper (sample_settings True False None)
   \<and> s_streams (sample_settings True False None) = None
   \<and> o_streams (init (sample_settings True False None))
       = [\<lparr>b_type = ''raw'', b_level = ''DEBUG'', b_stream = BaseStream\<rparr>]"
  using init_sink_selection [of "sample_settings True True (Some [sample_binding])" "[]"]
        init_sink_selection [of "sample_settings True False (Some [sample_binding])" "[sample_binding]"]
        init_sink_selection [of "sample_settings True False None" "[]"]
  by (simp add: sample_settings_def or_default_def DEFAULT_STREAM_TYPE_def DEFAULT_LEVEL_def)

text \<open>
  C1 as stated fails: with \<open>isMapper\<close> set and one explicit binding in \<open>streams\<close>, the
  sink list is the mapper stream's binding, not the explicit one.
\<close>

theorem init_explicit_streams_first_counterexample:
  "isMapper (sample_settings True True (Some [sample_binding]))
   \<and> s_streams (sample_settings True True (Some [sample_binding])) = Some [sample_binding]
   \<and> o_streams (init (sample_settings True True (Some [sample_binding])))
       = [\<lparr>b_type = ''raw'', b_level = ''DEBUG'', b_stream = MapperStream\<rparr>]
   \<and> o_streams (init (sample_settings True True (Some [sample_binding]))) \<noteq> [sample_binding]"
  by (simp add: sample_defs init_def createStream_def or_default_def DEFAULT_STREAM_TYPE_def
        DEFAULT_LEVEL_def)

section \<open>The error hook\<close>

lemma exception_response_guard:
  "\<not> present (requestId (hs_req s)) \<or> timeStart (hs_req s) = None \<Longrightarrow>
   middlewareExceptionResponse clock err s = (Next None, s)"
  by (auto simp: middlewareExceptionResponse_def Let_def split: option.splits)

text \<open>
  C2 at its failing inputs. For a request without a request id, and for one with a
  request id but no start time, \<open>middlewareExceptionResponse\<close> ends with \<open>next()\<close>: the
  error is not handed on. With both set, the same error ends with \<open>next(err)\<close>.
\<close>

theorem exception_response_without_context_drops_error:
  "middlewareExceptionResponse sample_clock sample_error
     (sample_state (sample_request [] None None) JUndefined)
   = (Next None, sample_state (sample_request [] None None) JUndefined)
   \<and> middlewareExceptionResponse sample_clock sample_error
     (sample_state (sample_request [] (Some ''r1'') None) JUndefined)
   = (Next None, sample_state (sample_request [] (Some ''r1'') None) JUndefined)
   \<and> fst (middlewareExceptionResponse sample_clock sample_error
     (sample_state (sample_request [] (Some ''r1'') (Some (1, 2))) JUndefined))
   = Next (Some sample_error)"
  by (simp add: middlewareExceptionResponse_def present_def sample_defs req_log_json_def json_def
       info_def at_index_def Let_def)

section \<open>The request hook\<close>




section \<open>The success hook\<close>

text \<open>
  C4. With a request id and a start time on the request and \<open>res.result\<close> equal to
  \<open>null\<close>, \<open>middlewareSuccessfulResponse\<close> throws a TypeError: the guard
  \<open>!res.result && res.result !== null\<close> lets \<open>null\<close> through and \<open>res.result.stream\<close>
  reads a property of \<open>null\<close>. Nothing is emitted and \<open>next\<close> is not called.
\<close>

theorem success_response_null_result_throws:
  "present (requestId (hs_req s)) \<Longrightarrow> timeStart (hs_req s) = Some ts \<Longrightarrow>
   rs_result (hs_res s) = JNull \<Longrightarrow>
   middlewareSuccessfulResponse clock s = (Threw TypeError, s)"
  by (simp add: middlewareSuccessfulResponse_def Let_def)

theorem success_response_null_result_throws_witness:
  "present (requestId (hs_req (sample_state (sample_request [] (Some ''r1'') (Some (1, 2))) JNull)))
   \<and> timeStart (hs_req (sample_state (sample_request [] (Some ''r1'') (Some (1, 2))) JNull)) = Some (1, 2)
   \<and> rs_result (hs_res (sample_state (sample_request [] (Some ''r1'') (Some (1, 2))) JNull)) = JNull
   \<and> middlewareSuccessfulResponse sample_clock (sample_state (sample_request [] (Some ''r1'') (Some (1, 2))) JNull)
      = (Threw TypeError, sample_state (sample_request [] (Some ''r1'') (Some (1, 2))) JNull)"
  using success_response_null_result_throws
    [of "sample_state (sample_request [] (Some ''r1'') (Some (1, 2))) JNull" "(1, 2)" sample_clock]
  by (simp add: sample_state_def sample_request_def present_def)

text \<open>
  C7. With a request id and a start time set, a truthy \<open>res.result.stream\<close> makes
  \<open>middlewareSuccessfulResponse\<close> call \<open>next()\<close> and change nothing; so does a missing
  start time. Whenever the hook does emit, \<open>res.result.stream\<close> is falsy.
\<close>

theorem success_response_skips_streams:
  "(present (requestId (hs_req s)) \<and> timeStart (hs_req s) = Some ts
      \<and> get_prop (rs_result (hs_res s)) ''stream'' = Inr v \<and> truthy v \<longrightarrow>
        middlewareSuccessfulResponse clock s = (Next None, s))
   \<and> (timeStart (hs_req s) = None \<longrightarrow> middlewareSuccessfulResponse clock s = (Next None, s))
   \<and> (hs_emitted (snd (middlewareSuccessfulResponse clock s)) \<noteq> hs_emitted s \<longrightarrow>
        (\<exists>w. get_prop (rs_result (hs_res s)) ''stream'' = Inr w \<and> \<not> truthy w))"
  by (cases "rs_result (hs_res s)")
     (auto simp: middlewareSuccessfulResponse_def Let_def
           split: option.splits sum.splits prod.splits completion.splits)

theorem success_response_skips_streams_witness:
  "present (requestId (hs_req (sample_state (sample_request [] (Some ''r1'') (Some (1, 2))) (JObj [(''stream'', JHost ''file'')]))))
   \<and> timeStart (hs_req (sample_state (sample_request [] (Some ''r1'') (Some (1, 2))) (JObj [(''stream'', JHost ''file'')]))) = Some (1, 2)
   \<and> get_prop (rs_result (hs_res (sample_state (sample_request [] (Some ''r1'') (Some (1, 2))) (JObj [(''stream'', JHost ''file'')])))) ''stream'' = Inr (JHost ''file'')
   \<and> truthy (JHost ''file'')
   \<and> middlewareSuccessfulResponse sample_clock
        (sample_state (sample_request [] (Some ''r1'') (Some (1, 2))) (JObj [(''stream'', JHost ''file'')]))
      = (Next None, sample_state (sample_request [] (Some ''r1'') (Some (1, 2))) (JObj [(''stream'', JHost ''file'')]))
   \<and> timeStart (hs_req (sample_state (sample_request [] (Some ''r1'') None) (JObj [(''id'', JNum 3)]))) = None
   \<and> middlewareSuccessfulResponse sample_clock
        (sample_state (sample_request [] (Some ''r1'') None) (JObj [(''id'', JNum 3)]))
      = (Next None, sample_state (sample_request [] (Some ''r1'') None) (JObj [(''id'', JNum 3)]))
   \<and> hs_emitted (snd (middlewareSuccessfulResponse sample_clock
        (sample_state (sample_request [] (Some ''r1'') (Some (1, 2))) (JObj [(''id'', JNum 3)]))))
      \<noteq> hs_emitted (sample_state (sample_request [] (Some ''r1'') (Some (1, 2))) (JObj [(''id'', JNum 3)]))
   \<and> get_prop (rs_result (hs_res (sample_state (sample_request [] (Some ''r1'') (Some (1, 2))) (JObj [(''id'', JNum 3)])))) ''stream'' = Inr JUndefined"
  using success_response_skips_streams
          [of "sample_state (sample_request [] (Some ''r1'') (Some (1, 2))) (JObj [(''stream'', JHost ''file'')])"
              "(1, 2)" "JHost ''file''" sample_clock]
        success_response_skips_streams
          [of "sample_state (sample_request [] (Some ''r1'') None) (JObj [(''id'', JNum 3)])"
              "(1, 2)" "JHost ''file''" sample_clock]
  by (simp add: sample_defs present_def middlewareSuccessfulResponse_def req_log_json_def json_def
        info_def at_index_def Let_def)

section \<open>The \<open>json\<close> and \<open>log\<close> calls\<close>

text \<open>
  C5. With \<open>isJSON\<close> false, a \<open>json\<close> call returns normally and leaves the list of
  calls to the engine as it was, whatever the payload and the remaining arguments.
\<close>

theorem json_disabled_is_noop:
  "\<not> isJSON (lg_settings lg) \<Longrightarrow> json lg args rest tr = (Returned, tr)"
  by (simp add: json_def)

theorem json_disabled_is_noop_witness:
  "\<not> isJSON (lg_settings (sample_logger False))
   \<and> json (sample_logger False) (JObj [(''a'', JNum 1)]) [JStr ''EVENT''] [] = (Returned, [])
   \<and> json (sample_logger False) (JStr ''started'') [] [] = (Returned, [])"
  using json_disabled_is_noop [of "sample_logger False" "JObj [(''a'', JNum 1)]" "[JStr ''EVENT'']" "[]"]
        json_disabled_is_noop [of "sample_logger False" "JStr ''started''" "[]" "[]"]
  by (simp add: sample_defs)

text \<open>
  C6. Every record a \<open>json\<close> call hands to the engine has \<open>level = 70\<close> in its fields
  object, for a string payload and for a structured one, also when the payload has a
  \<open>level\<close> of its own; and with \<open>isJSON\<close> true the call hands over exactly one record.
\<close>

theorem json_level_is_70:
  "(isJSON (lg_settings lg) \<longrightarrow>
      (\<exists>flds msg.
         json lg args rest tr = (Returned, tr @ [\<lparr>c_logger = lg, c_fields = JObj flds, c_msg = msg\<rparr>])
         \<and> map_of flds ''level'' = Some (JNum 70)))
   \<and> (\<forall>call \<in> set (drop (length tr) (snd (json lg args rest tr))).
          get_prop (c_fields call) ''level'' = Inr (JNum 70))"
  by (cases args) (auto simp: json_def info_def at_index_def Let_def update_conv')

theorem json_level_is_70_witness:
  "isJSON (lg_settings (sample_logger True))
   \<and> json (sample_logger True) (JObj [(''level'', JNum 30), (''a'', JNull)]) [JStr ''EVENT''] []
      = (Returned, [\<lparr>c_logger = sample_logger True,
                      c_fields = JObj [(''level'', JNum 70), (''a'', JNull)],
                      c_msg = JStr ''EVENT''\<rparr>])
   \<and> json (sample_logger True) (JStr ''started'') [JNum 1] []
      = (Returned, [\<lparr>c_logger = sample_logger True,
                      c_fields = JObj [(''level'', JNum 70)],
                      c_msg = JStr ''started''\<rparr>])
   \<and> get_prop (c_fields (hd (snd (json (sample_logger True)
          (JObj [(''level'', JNum 30), (''a'', JNull)]) [JStr ''EVENT''] [])))) ''level'' = Inr (JNum 70)"
  using json_level_is_70 [of "sample_logger True" "JObj [(''level'', JNum 30), (''a'', JNull)]" "[JStr ''EVENT'']" "[]"]
  by (simp add: sample_defs json_def info_def at_index_def)

text \<open>
  C10. The rest parameter is an array, so \<open>Array.isArray(rest)\<close> holds and the spread
  assigned first is overwritten: \<open>log(arg, ...rest)\<close> is the call
  \<open>json({ stringData: { [rest[0]]: rest[1] } }, arg)\<close>, and without rest arguments the
  one key is \<open>undefined\<close>.
\<close>

theorem log_is_json_of_first_pair:
  "isArray (JArr rest)
   \<and> log lg arg rest tr = log_as_json lg arg rest tr
   \<and> log lg arg [] tr = json lg (JObj [(''stringData'', JObj [(''undefined'', JUndefined)])]) [arg] tr"
  by (simp add: log_def log_as_json_def at_index_def)

section \<open>The header redactor\<close>

subsection \<open>Matches and their shape\<close>

lemma plain_simps [simp]:
  "plain []"
  "plain (c # cs) = (c \<noteq> CHR '';'' \<and> \<not> line_terminator c \<and> plain cs)"
  "plain (xs @ ys) = (plain xs \<and> plain ys)"
  by (auto simp: plain_def)

lemma strip_prefix_iff: "strip_prefix K s = Some r \<longleftrightarrow> s = K @ r"
  by (induction K s rule: strip_prefix.induct) auto

lemma strip_prefix_append [simp]: "strip_prefix K (K @ r) = Some r"
  by (simp add: strip_prefix_iff)

lemma value_end_plain [simp]:
  "plain v \<Longrightarrow> value_end (v @ x) = value_end x"
  by (induction v) auto

lemma value_end_SomeD:
  "value_end x = Some (t, rest) \<Longrightarrow>
   \<exists>v. x = v @ t @ rest \<and> plain v \<and> (t = '';'' \<or> (t = [] \<and> rest = []))"
proof (induction x)
  case Nil
  then show ?case by simp
next
  case (Cons c cs)
  show ?case
  proof (cases "c = CHR '';''")
    case True
    with Cons.prems have "t = '';''" "rest = cs" by auto
    then have "c # cs = [] @ t @ rest \<and> plain [] \<and> t = '';''" using True by simp
    then show ?thesis by blast
  next
    case False
    with Cons.prems have nlt: "\<not> line_terminator c" and ve: "value_end cs = Some (t, rest)"
      by (auto split: if_splits)
    from Cons.IH[OF ve] obtain v where v: "cs = v @ t @ rest" "plain v"
      "t = '';'' \<or> (t = [] \<and> rest = [])" by blast
    then have "c # cs = (c # v) @ t @ rest \<and> plain (c # v)" using False nlt by simp
    with v(3) show ?thesis by blast
  qed
qed

lemma match_at_SomeD:
  assumes "match_at K s = Some (t, rest)"
  shows "\<exists>v0 v. s = K @ v0 # v @ t @ rest \<and> \<not> line_terminator v0 \<and> plain v
           \<and> (t = '';'' \<or> (t = [] \<and> rest = []))"
proof -
  from assms obtain r where r: "s = K @ r" "match_value r = Some (t, rest)"
    by (auto simp: match_at_def strip_prefix_iff split: option.splits)
  then obtain v0 x where x: "r = v0 # x" "\<not> line_terminator v0" "value_end x = Some (t, rest)"
    by (cases r) (auto split: if_splits)
  from value_end_SomeD[OF x(3)] obtain v where "x = v @ t @ rest" "plain v"
    "t = '';'' \<or> (t = [] \<and> rest = [])" by blast
  with r x show ?thesis by auto
qed

lemma match_at_semicolon [simp]:
  "\<not> line_terminator v0 \<Longrightarrow> plain v \<Longrightarrow>
   match_at K (K @ v0 # v @ CHR '';'' # rest) = Some ('';'', rest)"
  by (simp add: match_at_def)

lemma match_at_end [simp]:
  "\<not> line_terminator v0 \<Longrightarrow> plain v \<Longrightarrow> match_at K (K @ v0 # v) = Some ([], [])"
  using value_end_plain[of v "[]"] by (simp add: match_at_def)

lemma match_at_head: "match_at (k # K') (c # cs) = Some m \<Longrightarrow> c = k"
  by (auto simp: match_at_def split: option.splits if_splits)

lemma replace_no_match: "match_at K (c # cs) = None \<Longrightarrow> replace K (c # cs) = c # replace K cs"
  by simp

lemma match_at_length: "match_at K s = Some (t, rest) \<Longrightarrow> length rest < length s"
  by (auto dest: match_at_SomeD)

lemma replace_match:
  "match_at K s = Some (t, rest) \<Longrightarrow> replace K s = K @ ''***'' @ t @ replace K rest"
  by (cases s) (auto simp: HEADER_REPLACE_PATTERN_def dest: match_at_length)

declare replace.simps(2) [simp del]

lemma replace_other_head [simp]: "k \<noteq> c \<Longrightarrow> replace (k # K') (c # cs) = c # replace (k # K') cs"
  by (simp add: match_at_def replace_no_match)

text \<open>Characters other than the key's first are copied.\<close>

lemma replace_skip: "k \<notin> set q \<Longrightarrow> replace (k # K') (q @ u) = q @ replace (k # K') u"
  by (induction q) auto

lemma strip_prefix_replace:
  "k \<notin> set q \<Longrightarrow>
   strip_prefix q (replace (k # K') u) = map_option (replace (k # K')) (strip_prefix q u)"
proof (induction q arbitrary: u)
  case Nil
  then show ?case by simp
next
  case (Cons x q)
  then have xk: "x \<noteq> k" and kq: "k \<notin> set q" by auto
  show ?case
  proof (cases u)
    case Nil
    then show ?thesis by simp
  next
    case (Cons y u')
    show ?thesis
    proof (cases "match_at (k # K') (y # u')")
      case None
      then show ?thesis using Cons Cons.IH[OF kq] by (simp add: replace_no_match)
    next
      case (Some m)
      then have "y = k" by (rule match_at_head)
      obtain t rest where "m = (t, rest)" by (cases m)
      with Some have "replace (k # K') (y # u') = (k # K') @ ''***'' @ t @ replace (k # K') rest"
        by (simp add: replace_match)
      then show ?thesis using Cons xk \<open>y = k\<close> by simp
    qed
  qed
qed


subsection \<open>One replacement, applied twice\<close>

lemma good_keyD:
  "good_key K \<Longrightarrow> \<exists>k K'. K = k # K' \<and> k \<notin> set K' \<and> plain K' \<and> k \<noteq> CHR '';'' \<and> \<not> line_terminator k"
  by (cases K) (auto simp: good_key_def)

lemma match_head_value_end:
  assumes "plain K'" "match_at (k # K') (x # xs) = Some m"
  shows "value_end xs \<noteq> None"
proof -
  obtain t rest where m: "m = (t, rest)" by (cases m)
  from match_at_SomeD[OF assms(2)[unfolded m]] obtain v0 v where
    d: "x # xs = (k # K') @ v0 # v @ t @ rest" "\<not> line_terminator v0" "plain v"
       "t = '';'' \<or> (t = [] \<and> rest = [])" by blast
  then have xs: "xs = K' @ v0 # v @ t @ rest" by simp
  from d(4) have "value_end (t @ rest) \<noteq> None" by auto
  then show ?thesis using assms(1) d(2,3) unfolding xs by simp
qed

lemma value_end_replace_None:
  "good_key K \<Longrightarrow> value_end xs = None \<Longrightarrow> value_end (replace K xs) = None"
proof (induction K xs rule: replace.induct)
  case (1 key)
  then show ?case by simp
next
  case (2 key c cs)
  from good_keyD[OF "2.prems"(1)] obtain k K' where
    K: "key = k # K'" "k \<notin> set K'" "plain K'" "k \<noteq> CHR '';''" "\<not> line_terminator k" by blast
  show ?case
  proof (cases "match_at key (c # cs)")
    case None
    from "2.prems"(2) have c: "c \<noteq> CHR '';''" by (auto split: if_splits)
    show ?thesis
    proof (cases "line_terminator c")
      case True
      then show ?thesis using None c by (simp add: replace_no_match)
    next
      case False
      with "2.prems"(2) c have "value_end cs = None" by simp
      from "2.IH"(1)[OF None "2.prems"(1) this] show ?thesis
        using None c False by (simp add: replace_no_match)
    qed
  next
    case (Some m)
    then have ck: "c = k" unfolding K by (rule match_at_head)
    from match_head_value_end[OF K(3) Some[unfolded K]] have "value_end cs \<noteq> None" .
    moreover from "2.prems"(2) K(4,5) ck have "value_end cs = None" by simp
    ultimately show ?thesis by contradiction
  qed
qed

lemma match_value_replace_None:
  assumes "good_key K" "match_value r = None"
  shows "match_value (replace K r) = None"
proof (cases r)
  case Nil
  then show ?thesis by simp
next
  case (Cons x xs)
  from good_keyD[OF assms(1)] obtain k K' where
    K: "K = k # K'" "k \<notin> set K'" "plain K'" "k \<noteq> CHR '';''" "\<not> line_terminator k" by blast
  show ?thesis
  proof (cases "match_at K (x # xs)")
    case None
    show ?thesis
    proof (cases "line_terminator x")
      case True
      then show ?thesis using None Cons by (simp add: replace_no_match)
    next
      case False
      with assms(2) Cons have "value_end xs = None" by simp
      from value_end_replace_None[OF assms(1) this] show ?thesis
        using None Cons False by (simp add: replace_no_match)
    qed
  next
    case (Some m)
    then have xk: "x = k" unfolding K by (rule match_at_head)
    from match_head_value_end[OF K(3) Some[unfolded K]] have "value_end xs \<noteq> None" .
    moreover from assms(2) Cons xk K(5) have "value_end xs = None" by simp
    ultimately show ?thesis by contradiction
  qed
qed

text \<open>A position where key \<open>A\<close> does not match still does not match after the text behind it
  has been rewritten for key \<open>K\<close>.\<close>

lemma match_at_replace_None:
  assumes "good_key K" "hd K \<notin> set A'" "match_at (a # A') (c # cs) = None"
  shows "match_at (a # A') (c # replace K cs) = None"
proof -
  from good_keyD[OF assms(1)] obtain k K' where K: "K = k # K'" by blast
  with assms(2) have kA: "k \<notin> set A'" by simp
  show ?thesis
  proof (cases "a = c")
    case False
    then show ?thesis by (simp add: match_at_def)
  next
    case True
    have sp: "strip_prefix A' (replace K cs) = map_option (replace K) (strip_prefix A' cs)"
      unfolding K by (rule strip_prefix_replace[OF kA])
    show ?thesis
    proof (cases "strip_prefix A' cs")
      case None
      then show ?thesis using True sp by (simp add: match_at_def)
    next
      case (Some r)
      with assms(3) True have "match_value r = None" by (simp add: match_at_def)
      from match_value_replace_None[OF assms(1) this] show ?thesis
        using True sp Some by (simp add: match_at_def)
    qed
  qed
qed

lemma replace_star_semicolon:
  "replace K (K @ ''***;'' @ x) = K @ ''***;'' @ replace K x"
  using match_at_semicolon[of "CHR ''*''" "''**''" K x]
  by (simp add: line_terminator_def replace_match)

lemma replace_star_end: "replace K (K @ ''***'') = K @ ''***''"
  using match_at_end[of "CHR ''*''" "''**''" K]
  by (simp add: line_terminator_def replace_match)

lemma replace_idem: "good_key K \<Longrightarrow> replace K (replace K s) = replace K s"
proof (induction K s rule: replace.induct)
  case (1 key)
  then show ?case by simp
next
  case (2 key c cs)
  from good_keyD[OF "2.prems"] obtain k K' where K: "key = k # K'" "k \<notin> set K'" by blast
  show ?case
  proof (cases "match_at key (c # cs)")
    case None
    have "match_at key (c # replace key cs) = None"
      using match_at_replace_None[OF "2.prems", of K' k c cs] None K by simp
    then show ?thesis using None "2.IH"(1)[OF None "2.prems"] by (simp add: replace_no_match)
  next
    case (Some m)
    obtain t rest where m: "m = (t, rest)" by (cases m)
    from match_at_SomeD[OF Some[unfolded m]] have t: "t = '';'' \<or> (t = [] \<and> rest = [])" by blast
    have r: "replace key (c # cs) = key @ ''***'' @ t @ replace key rest"
      using Some m by (simp add: replace_match)
    have ih: "replace key (replace key rest) = replace key rest"
      using "2.IH"(2)[OF Some m[symmetric] "2.prems"] .
    from t show ?thesis
    proof
      assume "t = '';''"
      then show ?thesis using r ih replace_star_semicolon[of key "replace key rest"] by simp
    next
      assume "t = [] \<and> rest = []"
      then show ?thesis using r replace_star_end[of key] by simp
    qed
  qed
qed


subsection \<open>The two replacements together\<close>

lemma first_split_unique:
  "x \<notin> set xs \<Longrightarrow> x \<notin> set xs' \<Longrightarrow> xs @ x # ys = xs' @ x # ys' \<Longrightarrow> xs = xs' \<and> ys = ys'"
proof (induction xs arbitrary: xs')
  case Nil
  then show ?case by (cases xs') auto
next
  case (Cons a xs)
  then show ?case by (cases xs') auto
qed

lemma plain_no_semicolon: "plain v \<Longrightarrow> CHR '';'' \<notin> set v"
  by (auto simp: plain_def)

text \<open>A match that the rewriting leaves as it is has the mask as its value.\<close>

lemma fixed_match:
  assumes m: "match_at K s = Some (t, rest)" and fp: "replace K s = s"
  shows "s = K @ ''***'' @ t @ rest \<and> replace K rest = rest"
proof -
  from match_at_SomeD[OF m] obtain v0 v where
    d: "s = K @ v0 # v @ t @ rest" "\<not> line_terminator v0" "plain v"
       "t = '';'' \<or> (t = [] \<and> rest = [])" by blast
  have "replace K s = K @ ''***'' @ t @ replace K rest" by (rule replace_match[OF m])
  from this[unfolded fp, symmetric] d(1)
  have "K @ ''***'' @ t @ replace K rest = K @ v0 # v @ t @ rest" by (rule trans)
  then have eq: "''***'' @ t @ replace K rest = (v0 # v) @ t @ rest"
    by (simp only: same_append_eq append_Cons)
  from d(4) show ?thesis
  proof
    assume t: "t = '';''"
    show ?thesis
    proof (cases "v0 = CHR '';''")
      case True
      with eq show ?thesis by simp
    next
      case False
      have "CHR '';'' \<notin> set ''***''" by simp
      moreover have "CHR '';'' \<notin> set (v0 # v)" using False plain_no_semicolon[OF d(3)] by simp
      moreover from eq have "''***'' @ CHR '';'' # replace K rest = (v0 # v) @ CHR '';'' # rest"
        unfolding t by (simp only: append.simps)
      ultimately have "''***'' = v0 # v \<and> replace K rest = rest"
        by (rule first_split_unique)
      then show ?thesis using d(1) by auto
    qed
  next
    assume "t = [] \<and> rest = []"
    then show ?thesis using eq d(1) by auto
  qed
qed

lemma fixed_behind_semicolon:
  assumes K: "good_key K"
  shows "CHR '';'' \<notin> set q \<Longrightarrow> replace K (q @ CHR '';'' # rest) = q @ CHR '';'' # rest \<Longrightarrow>
         replace K rest = rest"
proof (induction q)
  case Nil
  from good_keyD[OF K] obtain k K' where "K = k # K'" "k \<noteq> CHR '';''" by blast
  with Nil show ?case by simp
next
  case (Cons x xs)
  from good_keyD[OF K] obtain k K' where Kd: "K = k # K'" "plain K'" "k \<noteq> CHR '';''" by blast
  show ?case
  proof (cases "match_at K (x # xs @ CHR '';'' # rest)")
    case None
    with Cons.prems(2) have "replace K (xs @ CHR '';'' # rest) = xs @ CHR '';'' # rest"
      by (simp add: replace_no_match)
    with Cons.IH Cons.prems(1) show ?thesis by simp
  next
    case (Some m)
    obtain t2 rest2 where m: "m = (t2, rest2)" by (cases m)
    from match_at_SomeD[OF Some[unfolded m]] have t2: "t2 = '';'' \<or> (t2 = [] \<and> rest2 = [])" by blast
    from fixed_match[OF Some[unfolded m]] Cons.prems(2)
    have f: "(x # xs) @ CHR '';'' # rest = (K @ ''***'') @ t2 @ rest2" "replace K rest2 = rest2"
      by simp_all
    have nk: "CHR '';'' \<notin> set (K @ ''***'')" using Kd plain_no_semicolon[OF Kd(2)] by simp
    from t2 show ?thesis
    proof
      assume "t2 = '';''"
      with f(1) have "(x # xs) @ CHR '';'' # rest = (K @ ''***'') @ CHR '';'' # rest2" by simp
      from first_split_unique[OF Cons.prems(1) nk this] f(2) show ?thesis by simp
    next
      assume "t2 = [] \<and> rest2 = []"
      with f(1) have "(x # xs) @ CHR '';'' # rest = K @ ''***''" by simp
      then have "CHR '';'' \<in> set (K @ ''***'')" by (metis in_set_conv_decomp)
      with nk show ?thesis by contradiction
    qed
  qed
qed

text \<open>Text that key \<open>A\<close> leaves as it is stays so when it is rewritten for key \<open>B\<close>.\<close>

lemma fixed_after_other_key:
  assumes A: "good_key A" and B: "good_key B"
    and aB: "hd A \<notin> set B" "hd A \<noteq> CHR ''*''"
    and bA: "hd B \<notin> set A" "hd B \<noteq> CHR ''*''"
  shows "replace A s = s \<Longrightarrow> replace A (replace B s) = replace B s"
proof (induction s rule: length_induct)
  case (1 s)
  from good_keyD[OF A] obtain a A' where Ad: "A = a # A'" "plain A'" "a \<noteq> CHR '';''" by blast
  from good_keyD[OF B] obtain b B' where Bd: "B = b # B'" "plain B'" "b \<noteq> CHR '';''" by blast
  have IH: "\<And>u. length u < length s \<Longrightarrow> replace A u = u \<Longrightarrow> replace A (replace B u) = replace B u"
    using "1.IH" by blast
  show ?case
  proof (cases s)
    case Nil
    then show ?thesis by simp
  next
    case (Cons c cs)
    show ?thesis
    proof (cases "match_at B (c # cs)")
      case None
      note Bnone = None
      show ?thesis
      proof (cases "match_at A (c # cs)")
        case None
        with "1.prems" Cons have "replace A cs = cs" by (simp add: replace_no_match)
        then have "replace A (replace B cs) = replace B cs" using IH[of cs] Cons by simp
        moreover have "match_at A (c # replace B cs) = None"
          using match_at_replace_None[OF B, of A' a c cs] bA(1) None Ad by simp
        ultimately show ?thesis using Bnone Cons by (simp add: replace_no_match)
      next
        case (Some m)
        obtain t rest where m: "m = (t, rest)" by (cases m)
        from match_at_SomeD[OF Some[unfolded m]] have t: "t = '';'' \<or> (t = [] \<and> rest = [])" by blast
        from fixed_match[OF Some[unfolded m]] "1.prems" Cons
        have f: "s = A @ ''***'' @ t @ rest" "replace A rest = rest" by simp_all
        have len: "length rest < length s" using f(1) Ad by simp
        have ih: "replace A (replace B rest) = replace B rest" using IH[OF len f(2)] .
        have "b \<notin> set (A @ ''***'' @ t)" using bA Bd t by auto
        from replace_skip[OF this, of B' rest]
        have Bs: "replace B s = A @ ''***'' @ t @ replace B rest" using f(1) Bd by simp
        from t show ?thesis
        proof
          assume "t = '';''"
          then show ?thesis using Bs ih replace_star_semicolon[of A "replace B rest"] by simp
        next
          assume "t = [] \<and> rest = []"
          then show ?thesis using Bs replace_star_end[of A] by simp
        qed
      qed
    next
      case (Some m)
      obtain t rest where m: "m = (t, rest)" by (cases m)
      from match_at_SomeD[OF Some[unfolded m]] obtain v0 v where
        d: "c # cs = B @ v0 # v @ t @ rest" "plain v" "t = '';'' \<or> (t = [] \<and> rest = [])" by blast
      have Bs: "replace B s = B @ ''***'' @ t @ replace B rest"
        using replace_match[OF Some[unfolded m]] Cons by simp
      have aq: "a \<notin> set (B @ ''***'' @ t)" using aB Ad d(3) by auto
      from replace_skip[OF this, of A' "replace B rest"]
      have ABs: "replace A (replace B s) = B @ ''***'' @ t @ replace A (replace B rest)"
        using Bs Ad by simp
      have len: "length rest < length s" using d(1) Cons by simp
      have "a \<notin> set B" using aB Ad by simp
      from replace_skip[OF this, of A' "v0 # v @ t @ rest"] "1.prems" Cons d(1) Ad
      have fv: "replace A (v0 # v @ t @ rest) = v0 # v @ t @ rest" by simp
      have "replace A rest = rest"
        using d(3)
      proof
        assume t: "t = '';''"
        show ?thesis
        proof (cases "v0 = CHR '';''")
          case True
          with fv t Ad have "replace A (v @ CHR '';'' # rest) = v @ CHR '';'' # rest" by simp
          from fixed_behind_semicolon[OF A plain_no_semicolon[OF d(2)] this] show ?thesis .
        next
          case False
          then have ns: "CHR '';'' \<notin> set (v0 # v)" using plain_no_semicolon[OF d(2)] by simp
          from fv t have "replace A ((v0 # v) @ CHR '';'' # rest) = (v0 # v) @ CHR '';'' # rest"
            by simp
          from fixed_behind_semicolon[OF A ns this] show ?thesis .
        qed
      next
        assume "t = [] \<and> rest = []"
        then show ?thesis by simp
      qed
      from IH[OF len this] ABs Bs show ?thesis by simp
    qed
  qed
qed

lemma good_key_sid: "good_key ''sid=''"
  by (simp add: good_key_def line_terminator_def)

lemma good_key_rm: "good_key ''rm=''"
  by (simp add: good_key_def line_terminator_def)

lemma redact_idem:
  "replace ''rm='' (replace ''sid='' (replace ''rm='' (replace ''sid='' c)))
   = replace ''rm='' (replace ''sid='' c)"
proof -
  have "replace ''sid='' (replace ''sid='' c) = replace ''sid='' c"
    by (rule replace_idem[OF good_key_sid])
  then have "replace ''sid='' (replace ''rm='' (replace ''sid='' c)) = replace ''rm='' (replace ''sid='' c)"
    by (rule fixed_after_other_key[OF good_key_sid good_key_rm, rotated 4]) simp_all
  then show ?thesis by (simp add: replace_idem[OF good_key_rm])
qed


subsection \<open>Cookie strings\<close>

lemma replace_nonempty: "v \<noteq> [] \<Longrightarrow> K \<noteq> [] \<Longrightarrow> replace K v \<noteq> []"
proof (cases v)
  case Nil
  assume "v \<noteq> []"
  with Nil show ?thesis by simp
next
  case (Cons c cs)
  assume K: "K \<noteq> []"
  show ?thesis
  proof (cases "match_at K (c # cs)")
    case None
    then show ?thesis using Cons by (simp add: replace_no_match)
  next
    case (Some m)
    obtain t rest where "m = (t, rest)" by (cases m)
    with Some show ?thesis using Cons K by (simp add: replace_match)
  qed
qed

lemma replace_plain:
  assumes K: "good_key K"
  shows "plain v \<Longrightarrow> plain (replace K v)"
proof (induction K v rule: replace.induct)
  case (1 key)
  then show ?case by simp
next
  case (2 key c cs)
  show ?case
  proof (cases "match_at key (c # cs)")
    case None
    with 2 show ?thesis by (simp add: replace_no_match)
  next
    case (Some m)
    obtain t rest where m: "m = (t, rest)" by (cases m)
    from match_at_SomeD[OF Some[unfolded m]] obtain v0 v where
      d: "c # cs = key @ v0 # v @ t @ rest" "t = '';'' \<or> (t = [] \<and> rest = [])" by blast
    from "2.prems" have "plain (key @ v0 # v @ t @ rest)" unfolding d(1)[symmetric] .
    then have pk: "plain key" and pt: "plain t" by simp_all
    with d(2) have "t = [] \<and> rest = []" by auto
    then show ?thesis using Some m pk by (simp add: replace_match line_terminator_def)
  qed
qed

lemma strip_prefix_before_semicolon:
  "CHR '';'' \<notin> set K \<Longrightarrow> strip_prefix K a = None \<Longrightarrow> strip_prefix K (a @ CHR '';'' # b) = None"
  by (induction K a rule: strip_prefix.induct) auto

text \<open>A plain value that does not end with the key is rewritten the same way before a
  semicolon and at the end of the string.\<close>

lemma replace_plain_semicolon:
  assumes K: "good_key K"
  shows "plain v \<Longrightarrow> \<not> ends_with K v \<Longrightarrow>
         replace K (v @ CHR '';'' # y) = replace K v @ CHR '';'' # replace K y"
proof (induction v)
  case Nil
  from good_keyD[OF K] obtain k K' where "K = k # K'" "k \<noteq> CHR '';''" by blast
  then show ?case by simp
next
  case (Cons c cs)
  from good_keyD[OF K] obtain k K' where Kd: "K = k # K'" "plain K'" "k \<noteq> CHR '';''" by blast
  then have nk: "CHR '';'' \<notin> set K" using plain_no_semicolon[of K'] by simp
  from Cons.prems have pcs: "plain cs" and ne: "\<not> ends_with K cs" and neq: "K \<noteq> c # cs" by simp_all
  show ?case
  proof (cases "strip_prefix K (c # cs)")
    case None
    then have 1: "match_at K (c # cs) = None" by (simp add: match_at_def)
    from strip_prefix_before_semicolon[OF nk None, of y]
    have 2: "match_at K (c # cs @ CHR '';'' # y) = None" by (simp add: match_at_def)
    from Cons.IH[OF pcs ne] 1 2 show ?thesis by (simp add: replace_no_match)
  next
    case (Some r)
    then have v: "c # cs = K @ r" by (simp add: strip_prefix_iff)
    with neq obtain r0 r' where r: "r = r0 # r'" by (cases r) auto
    from Cons.prems(1) have "plain (K @ r0 # r')" unfolding v r .
    then have p: "\<not> line_terminator r0" "plain r'" by simp_all
    have "replace K (c # cs) = K @ ''***''"
      using replace_match[OF match_at_end[OF p, of K]] v r by simp
    moreover have "replace K ((c # cs) @ CHR '';'' # y) = K @ ''***'' @ '';'' @ replace K y"
      using replace_match[OF match_at_semicolon[OF p, of K y]] v r by simp
    ultimately show ?thesis by simp
  qed
qed


lemma replace_copy_end: "\<not> occurs K x \<Longrightarrow> replace K x = x"
  by (induction x) (auto simp: replace_no_match match_at_def)

lemma replace_copy_semicolon:
  assumes "good_key K"
  shows "\<not> occurs K x \<Longrightarrow> replace K (x @ CHR '';'' # y) = x @ CHR '';'' # replace K y"
proof (induction x)
  case Nil
  from good_keyD[OF assms] obtain k K' where "K = k # K'" "k \<noteq> CHR '';''" by blast
  then show ?case by simp
next
  case (Cons c cs)
  from good_keyD[OF assms] obtain k K' where Kd: "K = k # K'" "plain K'" "k \<noteq> CHR '';''" by blast
  then have "CHR '';'' \<notin> set K" using plain_no_semicolon[of K'] by simp
  moreover from Cons.prems have "strip_prefix K (c # cs) = None" by simp
  ultimately have "strip_prefix K ((c # cs) @ CHR '';'' # y) = None"
    by (rule strip_prefix_before_semicolon)
  then have "match_at K (c # cs @ CHR '';'' # y) = None" by (simp add: match_at_def)
  then show ?case using Cons by (simp add: replace_no_match)
qed

text \<open>
  A segment \<open>x\<close> is rewritten to \<open>x'\<close> on its own when it is so at the end of the string
  and before a semicolon, whatever follows. A string of such segments joined by \<open>; \<close>
  is rewritten segment by segment.
\<close>

lemma replace_join:
  assumes K: "good_key K" and sp: "hd K \<noteq> CHR '' ''"
  shows "list_all2 (\<lambda>x x'. replace K x = x'
            \<and> (\<forall>y. replace K (x @ CHR '';'' # y) = x' @ CHR '';'' # replace K y)) xs xs' \<Longrightarrow>
         replace K (join ''; '' xs) = join ''; '' xs'"
proof (induction xs arbitrary: xs' rule: induct_list012)
  case 1
  then show ?case by simp
next
  case (2 x)
  then show ?case by (auto simp: list_all2_Cons1)
next
  case (3 x y zs)
  from good_keyD[OF K] obtain k K' where Kd: "K = k # K'" by blast
  with sp have ksp: "k \<noteq> CHR '' ''" by simp
  from "3.prems" obtain x' y' zs' where
    xs': "xs' = x' # y' # zs'"
    and x: "\<forall>u. replace K (x @ CHR '';'' # u) = x' @ CHR '';'' # replace K u"
    and rest: "list_all2 (\<lambda>x x'. replace K x = x'
            \<and> (\<forall>y. replace K (x @ CHR '';'' # y) = x' @ CHR '';'' # replace K y)) (y # zs) (y' # zs')"
    by (auto simp: list_all2_Cons1)
  have ih: "replace K (join ''; '' (y # zs)) = join ''; '' (y' # zs')"
    using "3.IH"(2)[OF rest] .
  have "replace K (join ''; '' (x # y # zs)) = replace K (x @ CHR '';'' # (CHR '' '' # join ''; '' (y # zs)))"
    by simp
  also have "\<dots> = x' @ CHR '';'' # replace K (CHR '' '' # join ''; '' (y # zs))"
    using x by blast
  also have "\<dots> = x' @ CHR '';'' # CHR '' '' # join ''; '' (y' # zs')"
    unfolding Kd using ksp ih[unfolded Kd] by simp
  finally show ?case unfolding xs' by simp
qed

lemma segment_masked:
  assumes "snd p = v0 # v" "\<not> line_terminator v0" "plain v"
  shows "replace (fst p @ ''='') (pair_text p) = pair_text (fst p, ''***'')
         \<and> (\<forall>y. replace (fst p @ ''='') (pair_text p @ CHR '';'' # y)
                 = pair_text (fst p, ''***'') @ CHR '';'' # replace (fst p @ ''='') y)"
proof -
  let ?K = "fst p @ ''=''"
  have t: "pair_text p = ?K @ v0 # v" using assms(1) by (simp add: pair_text_def)
  have 1: "replace ?K (pair_text p) = ?K @ ''***''"
    using replace_match[OF match_at_end[OF assms(2,3), of ?K]] t by simp
  have 2: "replace ?K (pair_text p @ CHR '';'' # y) = ?K @ ''***'' @ CHR '';'' # replace ?K y" for y
    using replace_match[OF match_at_semicolon[OF assms(2,3), of ?K y]] t by simp
  from 1 2 show ?thesis by (simp add: pair_text_def)
qed

lemma segment_copied:
  assumes "good_key K" "\<not> occurs K x"
  shows "replace K x = x \<and> (\<forall>y. replace K (x @ CHR '';'' # y) = x @ CHR '';'' # replace K y)"
  using replace_copy_end[OF assms(2)] replace_copy_semicolon[OF assms] by simp

lemma segment_rm_under_sid:
  assumes "plain v" "\<not> ends_with ''sid='' v"
  shows "replace ''sid='' (pair_text (''rm'', v)) = pair_text (''rm'', replace ''sid='' v)
         \<and> (\<forall>y. replace ''sid='' (pair_text (''rm'', v) @ CHR '';'' # y)
                 = pair_text (''rm'', replace ''sid='' v) @ CHR '';'' # replace ''sid='' y)"
proof -
  have skip: "replace ''sid='' (''rm='' @ u) = ''rm='' @ replace ''sid='' u" for u
    by (rule replace_skip) simp
  have "replace ''sid='' (v @ CHR '';'' # y) = replace ''sid='' v @ CHR '';'' # replace ''sid='' y" for y
    by (rule replace_plain_semicolon[OF good_key_sid assms])
  then show ?thesis using skip by (simp add: pair_text_def)
qed

lemma wf_pair_sid_pass:
  assumes "wf_pair p"
  shows "replace ''sid='' (pair_text p) = pair_text (mask_sid p)
         \<and> (\<forall>y. replace ''sid='' (pair_text p @ CHR '';'' # y)
                 = pair_text (mask_sid p) @ CHR '';'' # replace ''sid='' y)"
proof (cases "fst p = ''sid''")
  case True
  with assms obtain v0 v where "snd p = v0 # v" "\<not> line_terminator v0" "plain v"
    by (cases "snd p") (auto simp: wf_pair_def)
  from segment_masked[OF this] True show ?thesis by (simp add: mask_sid_def)
next
  case False
  note nsid = False
  show ?thesis
  proof (cases "fst p = ''rm''")
    case True
    with assms have "plain (snd p)" "\<not> ends_with ''sid='' (snd p)" by (auto simp: wf_pair_def)
    from segment_rm_under_sid[OF this] True have
      "replace ''sid='' (pair_text (fst p, snd p)) = pair_text (mask_sid p)
       \<and> (\<forall>y. replace ''sid='' (pair_text (fst p, snd p) @ CHR '';'' # y)
                 = pair_text (mask_sid p) @ CHR '';'' # replace ''sid='' y)"
      by (simp add: mask_sid_def)
    then show ?thesis by simp
  next
    case False
    with assms nsid have "\<not> occurs ''sid='' (pair_text p)" by (simp add: wf_pair_def)
    from segment_copied[OF good_key_sid this] nsid False show ?thesis by (simp add: mask_sid_def)
  qed
qed

lemma wf_pair_rm_pass:
  assumes "wf_pair p"
  shows "replace ''rm='' (pair_text (mask_sid p)) = pair_text (mask_pair p)
         \<and> (\<forall>y. replace ''rm='' (pair_text (mask_sid p) @ CHR '';'' # y)
                 = pair_text (mask_pair p) @ CHR '';'' # replace ''rm='' y)"
proof (cases "fst p = ''sid''")
  case True
  have "\<not> occurs ''rm='' (pair_text (''sid'', ''***''))" by (simp add: pair_text_def)
  from segment_copied[OF good_key_rm this] True show ?thesis
    by (simp add: mask_sid_def mask_pair_def)
next
  case False
  note nsid = False
  show ?thesis
  proof (cases "fst p = ''rm''")
    case True
    with assms have v: "snd p \<noteq> []" "plain (snd p)" by (auto simp: wf_pair_def)
    let ?w = "replace ''sid='' (snd p)"
    have "?w \<noteq> []" using replace_nonempty[OF v(1)] by simp
    moreover have "plain ?w" by (rule replace_plain[OF good_key_sid v(2)])
    ultimately obtain w0 w where "snd (''rm'', ?w) = w0 # w" "\<not> line_terminator w0" "plain w"
      by (cases ?w) auto
    from segment_masked[OF this] True nsid show ?thesis
      by (simp add: mask_sid_def mask_pair_def)
  next
    case False
    with assms nsid have "\<not> occurs ''rm='' (pair_text p)" by (simp add: wf_pair_def)
    from segment_copied[OF good_key_rm this] nsid False show ?thesis
      by (simp add: mask_sid_def mask_pair_def)
  qed
qed

lemma redact_cookie_string:
  assumes "list_all wf_pair ps"
  shows "replace ''rm='' (replace ''sid='' (cookie_string ps)) = cookie_string (map mask_pair ps)"
proof -
  from assms have wf: "\<And>p. p \<in> set ps \<Longrightarrow> wf_pair p" by (simp add: list_all_iff)
  have "replace ''sid='' (join ''; '' (map pair_text ps)) = join ''; '' (map (pair_text \<circ> mask_sid) ps)"
    by (rule replace_join[OF good_key_sid])
       (auto simp: list_all2_map1 list_all2_map2 list_all2_same dest!: wf wf_pair_sid_pass)
  moreover
  have "replace ''rm='' (join ''; '' (map (pair_text \<circ> mask_sid) ps))
        = join ''; '' (map (pair_text \<circ> mask_pair) ps)"
    by (rule replace_join[OF good_key_rm])
       (auto simp: list_all2_map1 list_all2_map2 list_all2_same dest!: wf wf_pair_rm_pass)
  ultimately show ?thesis by (simp add: cookie_string_def comp_def)
qed


lemma header_cookie:
  "map_of (header hs) ''cookie'' =
     (case map_of hs ''cookie'' of
        None \<Rightarrow> None
      | Some c \<Rightarrow> Some (if c = [] then c else replace ''rm='' (replace ''sid='' c)))"
  by (auto simp: header_def Let_def update_conv' HEADER_SID_REGEX_def HEADER_RM_REGEX_def
      split: option.splits)

lemma header_authorization:
  "map_of (header hs) ''authorization'' =
     (case map_of hs ''authorization'' of
        None \<Rightarrow> None
      | Some a \<Rightarrow> Some (if a = [] then a else ''***''))"
  by (auto simp: header_def Let_def update_conv' HEADER_AUTHORIZATION_PATTERN_def
      split: option.splits)

lemma header_idem: "header (header hs) = header hs"
proof -
  let ?H = "header hs"
  have c: "(case map_of ?H ''cookie'' of
             None \<Rightarrow> ?H
           | Some cookie \<Rightarrow>
               if cookie = [] then ?H
               else AList.update ''cookie''
                      (replace HEADER_RM_REGEX (replace HEADER_SID_REGEX cookie)) ?H) = ?H"
    by (auto simp: header_cookie redact_idem update_triv HEADER_SID_REGEX_def HEADER_RM_REGEX_def
        split: option.splits)
  have a: "(case map_of ?H ''authorization'' of
             None \<Rightarrow> ?H
           | Some authorization \<Rightarrow>
               if authorization = [] then ?H
               else AList.update ''authorization'' HEADER_AUTHORIZATION_PATTERN ?H) = ?H"
    by (auto simp: header_authorization update_triv HEADER_AUTHORIZATION_PATTERN_def
        split: option.splits)
  have "header ?H = ?H"
    by (subst header_def) (simp only: Let_def c a)
  then show ?thesis .
qed

lemma cookie_string_empty: "cookie_string ps = [] \<Longrightarrow> ps = []"
proof (cases ps)
  case Nil
  then show ?thesis by simp
next
  case (Cons p qs)
  assume "cookie_string ps = []"
  with Cons show ?thesis by (cases qs) (auto simp: cookie_string_def pair_text_def)
qed


text \<open>
  C8, as the code has it. The \<open>header\<close> serializer is idempotent on every header
  list. On a cookie string of well-formed pairs (\<open>sid\<close> and \<open>rm\<close> values non-empty,
  without \<open>;\<close> and line terminators, an \<open>rm\<close> value not ending with \<open>sid=\<close>; every
  other pair without \<open>sid=\<close> and \<open>rm=\<close> anywhere in it) it replaces exactly the values
  of the \<open>sid\<close> and \<open>rm\<close> pairs by the mask and keeps every other pair as it is.
\<close>

theorem header_redaction:
  "header (header hs) = header hs
   \<and> (map_of hs ''cookie'' = Some (cookie_string ps) \<and> list_all wf_pair ps \<longrightarrow>
        map_of (header hs) ''cookie'' = Some (cookie_string (map mask_pair ps)))"
proof
  show "header (header hs) = header hs" by (rule header_idem)
next
  show "map_of hs ''cookie'' = Some (cookie_string ps) \<and> list_all wf_pair ps \<longrightarrow>
        map_of (header hs) ''cookie'' = Some (cookie_string (map mask_pair ps))"
  proof
    assume h: "map_of hs ''cookie'' = Some (cookie_string ps) \<and> list_all wf_pair ps"
    then have r: "replace ''rm='' (replace ''sid='' (cookie_string ps)) = cookie_string (map mask_pair ps)"
      by (simp add: redact_cookie_string)
    show "map_of (header hs) ''cookie'' = Some (cookie_string (map mask_pair ps))"
    proof (cases "cookie_string ps = []")
      case True
      then have "ps = []" by (rule cookie_string_empty)
      then show ?thesis using h by (simp add: header_cookie cookie_string_def)
    next
      case False
      then show ?thesis using h r by (simp add: header_cookie)
    qed
  qed
qed

theorem header_redaction_witness:
  "map_of [(''host'', ''example.org''), (''cookie'', cookie_string sample_cookie)] ''cookie''
     = Some (cookie_string sample_cookie)
   \<and> list_all wf_pair sample_cookie
   \<and> cookie_string sample_cookie = ''theme=dark; sid=s3cr3t; rm=1; lang=en''
   \<and> map_of (header [(''host'', ''example.org''), (''cookie'', cookie_string sample_cookie)]) ''cookie''
     = Some ''theme=dark; sid=***; rm=***; lang=en''
   \<and> header (header [(''host'', ''example.org''), (''cookie'', cookie_string sample_cookie)])
     = header [(''host'', ''example.org''), (''cookie'', cookie_string sample_cookie)]"
  using header_redaction [of "[(''host'', ''example.org''), (''cookie'', cookie_string sample_cookie)]" sample_cookie]
  by (simp add: sample_cookie_def cookie_string_def pair_text_def wf_pair_def mask_pair_def
        line_terminator_def)

text \<open>
  C8 as stated fails: the patterns match \<open>sid=\<close> and \<open>rm=\<close> wherever they stand, so in
  the cookie \<open>sid=abc; form=x\<close> the pair \<open>form=x\<close>, which is neither a \<open>sid\<close> nor an
  \<open>rm\<close> pair, is rewritten to \<open>form=***\<close>.
\<close>

theorem header_other_pairs_counterexample:
  "map_of (header [(''cookie'', cookie_string [(''sid'', ''abc''), (''form'', ''x'')])]) ''cookie''
     = Some ''sid=***; form=***''
   \<and> cookie_string [(''sid'', ''abc''), (''form'', ''x'')] = ''sid=abc; form=x''
   \<and> cookie_string (map mask_pair [(''sid'', ''abc''), (''form'', ''x'')]) = ''sid=***; form=x''"
  by (simp add: header_def cookie_string_def pair_text_def mask_pair_def HEADER_SID_REGEX_def
        HEADER_RM_REGEX_def replace.simps(2) match_at_def HEADER_REPLACE_PATTERN_def line_terminator_def)

section \<open>The network sink's write\<close>

text \<open>
  C9, as the code has it. When \<open>_map\<close> and \<open>JSON.stringify\<close> return for the record,
  \<open>write\<close> returns after exactly one \<open>gelf.log\<close> event more on the client, whose
  payload is the JSON text of the mapped record followed by a newline; the events
  emitted before are untouched. When either throws, \<open>write\<close> throws the same
  exception and emits nothing: it has no handler of its own.
\<close>

theorem gelf_write_one_message:
  "(map_record record = Inr mapped \<and> stringify mapped = Inr text \<longrightarrow>
      fst (gelf_write map_record stringify record g) = Returned
      \<and> gelf_emitted (snd (gelf_write map_record stringify record g))
          = gelf_emitted g @ [(''gelf.log'', text @ [CHR 0x0A])]
      \<and> length (gelf_emitted (snd (gelf_write map_record stringify record g)))
          = length (gelf_emitted g) + 1)
   \<and> (map_record record = Inl e \<or> (map_record record = Inr mapped \<and> stringify mapped = Inl e) \<longrightarrow>
      gelf_write map_record stringify record g = (Thrown e, g))"
  by (auto simp: gelf_write_def emit_def)

lemma string_of_int_30: "string_of_int 30 = ''30''"
  by code_simp

theorem gelf_write_one_message_witness:
  \<open>sample_map sample_record
     = Inr (JObj [(''msg'', JStr ''up''), (''level'', JNum 30),
                  (''meta'', JObj [(''requestId'', JStr ''r1'')])])
   \<and> stringify_text sample_host
        (JObj [(''msg'', JStr ''up''), (''level'', JNum 30),
               (''meta'', JObj [(''requestId'', JStr ''r1'')])])
     = Inr ''{"msg":"up","level":30,"meta":{"requestId":"r1"}}''
   \<and> gelf_write sample_map (stringify_text sample_host) sample_record \<lparr>gelf_emitted = []\<rparr>
     = (Returned,
        \<lparr>gelf_emitted =
           [(''gelf.log'', ''{"msg":"up","level":30,"meta":{"requestId":"r1"}}'' @ [CHR 0x0A])]\<rparr>)
   \<and> sample_map bigint_record
     = Inr (JObj [(''msg'', JStr ''up''), (''id'', JBigInt 10),
                  (''meta'', JObj [(''requestId'', JStr ''r1'')])])
   \<and> stringify_text sample_host
        (JObj [(''msg'', JStr ''up''), (''id'', JBigInt 10),
               (''meta'', JObj [(''requestId'', JStr ''r1'')])])
     = Inl TypeError
   \<and> gelf_write sample_map (stringify_text sample_host) bigint_record \<lparr>gelf_emitted = []\<rparr>
     = (Thrown TypeError, \<lparr>gelf_emitted = []\<rparr>)\<close>
  using gelf_write_one_message
          [of sample_map sample_record
              "JObj [(''msg'', JStr ''up''), (''level'', JNum 30),
                     (''meta'', JObj [(''requestId'', JStr ''r1'')])]"
              "stringify_text sample_host"
              "[CHR ''{'', CHR 0x22, CHR ''m'', CHR ''s'', CHR ''g'', CHR 0x22, CHR '':'',
                CHR 0x22, CHR ''u'', CHR ''p'', CHR 0x22, CHR '','',
                CHR 0x22, CHR ''l'', CHR ''e'', CHR ''v'', CHR ''e'', CHR ''l'', CHR 0x22,
                CHR '':'', CHR ''3'', CHR ''0'', CHR '','',
                CHR 0x22, CHR ''m'', CHR ''e'', CHR ''t'', CHR ''a'', CHR 0x22, CHR '':'',
                CHR ''{'', CHR 0x22, CHR ''r'', CHR ''e'', CHR ''q'', CHR ''u'', CHR ''e'',
                CHR ''s'', CHR ''t'', CHR ''I'', CHR ''d'', CHR 0x22, CHR '':'',
                CHR 0x22, CHR ''r'', CHR ''1'', CHR 0x22, CHR ''}'', CHR ''}'']"
              "\<lparr>gelf_emitted = []\<rparr>" TypeError]
        gelf_write_one_message
          [of sample_map bigint_record
              "JObj [(''msg'', JStr ''up''), (''id'', JBigInt 10),
                     (''meta'', JObj [(''requestId'', JStr ''r1'')])]"
              "stringify_text sample_host" "[]" "\<lparr>gelf_emitted = []\<rparr>" TypeError]
  by (simp add: sample_map_def sample_record_def bigint_record_def map_meta_def assign_def
        stringify_text_def quote_def escape_def string_of_int_30 gelf_write_def emit_def)

text \<open>
  C9 as stated fails: on a record with a BigInt field, which \<open>_map\<close> keeps,
  \<open>JSON.stringify\<close> throws a TypeError, and \<open>write\<close> throws with it: no message is sent
  for this record.
\<close>

theorem gelf_write_bigint_counterexample:
  "gelf_write sample_map (stringify_text sample_host) bigint_record \<lparr>gelf_emitted = []\<rparr>
     = (Thrown TypeError, \<lparr>gelf_emitted = []\<rparr>)
   \<and> gelf_emitted (snd (gelf_write sample_map (stringify_text sample_host) bigint_record
         \<lparr>gelf_emitted = []\<rparr>)) = []"
  by (simp add: sample_map_def bigint_record_def map_meta_def assign_def stringify_text_def
        quote_def escape_def gelf_write_def)

end
